theory Spec2Isabelle
  imports Complex_Main "HOL-Library.Multiset"
begin

section \<open>Data model\<close>

text \<open>
  The analysis script works on one table \<open>df\<close> read from a CSV file. A row has the columns
  \<open>InvoiceNo\<close>, \<open>CustomerID\<close>, \<open>Description\<close>, \<open>Quantity\<close>, \<open>UnitPrice\<close>, \<open>InvoiceDate\<close> and
  \<open>Country\<close>. The two columns the script tests for missing values (\<open>CustomerID\<close> and
  \<open>Description\<close>) are optional here, \<open>None\<close> standing for pandas' NaN; the other columns are
  taken to be present in every row. Prices are exact rationals, so the arithmetic of the
  model is exact where pandas rounds to binary floating point.

  The cleaning steps never look at \<open>InvoiceDate\<close>, and the script converts that column from
  text to time stamps only afterwards, so a row is polymorphic in the representation \<open>'d\<close> of
  the date.
\<close>

record 'd row =
  InvoiceNo :: string
  CustomerID :: "nat option"
  Description :: "string option"
  Quantity :: int
  UnitPrice :: rat
  InvoiceDate :: 'd
  Country :: string

text \<open>After \<open>df["TotalPrice"] = df["Quantity"] * df["UnitPrice"]\<close> a row has one more column.\<close>

record 'd sale = "'d row" +
  TotalPrice :: rat

text \<open>
  A pandas time stamp is a count of nanoseconds since 1970-01-01 00:00; \<open>Timedelta(days=1)\<close>
  is the number of nanoseconds of one day.
\<close>

type_synonym timestamp = int

definition Timedelta_days :: "int \<Rightarrow> int" where
  "Timedelta_days d = d * 86400000000000"

section \<open>Step 3: data cleaning\<close>

text \<open>
  \<open>df.drop_duplicates()\<close> keeps the first occurrence of every row and removes the later
  rows equal to it in all columns; the order of the rows that stay is unchanged.
\<close>

fun drop_duplicates :: "'a list \<Rightarrow> 'a list" where
  "drop_duplicates [] = []"
| "drop_duplicates (x # xs) = x # drop_duplicates (removeAll x xs)"

text \<open>\<open>df.dropna(subset=['CustomerID', 'Description'])\<close>\<close>

definition dropna :: "('d, 'z) row_scheme list \<Rightarrow> ('d, 'z) row_scheme list" where
  "dropna df = filter (\<lambda>r. CustomerID r \<noteq> None \<and> Description r \<noteq> None) df"

text \<open>\<open>df[(df['UnitPrice'] > 0) & (df['Quantity'] > 0)]\<close>\<close>

definition positive_rows :: "('d, 'z) row_scheme list \<Rightarrow> ('d, 'z) row_scheme list" where
  "positive_rows df = filter (\<lambda>r. UnitPrice r > 0 \<and> Quantity r > 0) df"

definition data_cleaning :: "'d row list \<Rightarrow> 'd row list" where
  "data_cleaning df = positive_rows (dropna (drop_duplicates df))"

section \<open>Step 4: feature engineering\<close>

text \<open>\<open>df["TotalPrice"] = df["Quantity"] * df["UnitPrice"]\<close>\<close>

definition add_TotalPrice :: "'d row list \<Rightarrow> 'd sale list" where
  "add_TotalPrice df =
     map (\<lambda>r. \<lparr>InvoiceNo = InvoiceNo r, CustomerID = CustomerID r, Description = Description r,
               Quantity = Quantity r, UnitPrice = UnitPrice r, InvoiceDate = InvoiceDate r,
               Country = Country r, TotalPrice = of_int (Quantity r) * UnitPrice r\<rparr>) df"

text \<open>The table after the cleaning steps and the line total (lines 33 to 45 of the script).\<close>

definition cleaner :: "'d row list \<Rightarrow> 'd sale list" where
  "cleaner df = add_TotalPrice (data_cleaning df)"

text \<open>
  \<open>df['InvoiceDate'] = pd.to_datetime(df['InvoiceDate'])\<close> replaces every date by its time
  stamp. The parser belongs to pandas; it is a parameter of the model. The columns \<open>Year\<close> and
  \<open>Month\<close> that the script adds next are used by the monthly report only and are left out.
\<close>

definition to_datetime_column :: "('d \<Rightarrow> timestamp) \<Rightarrow> 'd sale list \<Rightarrow> timestamp sale list" where
  "to_datetime_column to_datetime df =
     map (\<lambda>r. \<lparr>InvoiceNo = InvoiceNo r, CustomerID = CustomerID r, Description = Description r,
               Quantity = Quantity r, UnitPrice = UnitPrice r,
               InvoiceDate = to_datetime (InvoiceDate r), Country = Country r,
               TotalPrice = TotalPrice r\<rparr>) df"

section \<open>Step 10: customer segmentation using RFM\<close>

subsection \<open>The three metrics\<close>

text \<open>
  \<open>latest_date = df['InvoiceDate'].max() + pd.Timedelta(days=1)\<close>. The maximum of an empty
  column is pandas' NaT (not a time), and so is the sum; \<open>None\<close> stands for it.
\<close>

definition latest_date :: "(timestamp, 'z) row_scheme list \<Rightarrow> timestamp option" where
  "latest_date df =
     (if df = [] then None else Some (Max (set (map InvoiceDate df)) + Timedelta_days 1))"

text \<open>
  \<open>df.groupby('CustomerID')\<close> makes one group for every customer identifier that occurs,
  in ascending order of the identifier; rows without an identifier belong to no group.
\<close>

definition group_keys :: "('d, 'z) row_scheme list \<Rightarrow> nat list" where
  "group_keys df = sort (remdups (List.map_filter CustomerID df))"

definition group_rows :: "('d, 'z) row_scheme list \<Rightarrow> nat \<Rightarrow> ('d, 'z) row_scheme list" where
  "group_rows df c = filter (\<lambda>r. CustomerID r = Some c) df"

text \<open>
  \<open>recency_df\<close>: the last invoice date of every customer, then the whole days from it to
  \<open>latest_date\<close> (\<open>.dt.days\<close> rounds a time difference down to days). With no row there is
  no group, and the table is empty.
\<close>

definition recency_df :: "(timestamp, 'z) row_scheme list \<Rightarrow> (nat \<times> int) list" where
  "recency_df df =
     (case latest_date df of
        None \<Rightarrow> []
      | Some latest \<Rightarrow>
          map (\<lambda>c. (c, (latest - Max (set (map InvoiceDate (group_rows df c)))) div Timedelta_days 1))
            (group_keys df))"

text \<open>\<open>frequency_df\<close>: \<open>nunique\<close> counts the distinct invoice numbers of the group.\<close>

definition frequency_df :: "('d, 'z) row_scheme list \<Rightarrow> (nat \<times> nat) list" where
  "frequency_df df =
     map (\<lambda>c. (c, length (remdups (map InvoiceNo (group_rows df c))))) (group_keys df)"

text \<open>\<open>monetary_df\<close>: the sum of the line totals of the group.\<close>

definition monetary_df :: "'d sale list \<Rightarrow> (nat \<times> rat) list" where
  "monetary_df df = map (\<lambda>c. (c, sum_list (map TotalPrice (group_rows df c)))) (group_keys df)"

text \<open>
  \<open>left.merge(right, on='CustomerID')\<close> is an inner join: every row of the left table is
  paired with every row of the right table that has the same key, in the order of the left
  table.
\<close>

definition merge :: "(nat \<times> 'a) list \<Rightarrow> (nat \<times> 'b) list \<Rightarrow> (nat \<times> 'a \<times> 'b) list" where
  "merge left right =
     concat (map (\<lambda>(k, a). map (\<lambda>(k', b). (k, a, b)) (filter (\<lambda>(k', b). k' = k) right)) left)"

text \<open>A row of \<open>rfm\<close>; its column \<open>CustomerID\<close> is the field \<open>Customer\<close> here.\<close>

record metrics =
  Customer :: nat
  Recency :: int
  Frequency :: nat
  Monetary :: rat

text \<open>\<open>rfm = recency_df.merge(frequency_df, on='CustomerID').merge(monetary_df, on='CustomerID')\<close>\<close>

definition rfm :: "timestamp sale list \<Rightarrow> metrics list" where
  "rfm df =
     map (\<lambda>(c, (r, f), m). \<lparr>Customer = c, Recency = r, Frequency = f, Monetary = m\<rparr>)
       (merge (merge (recency_df df) (frequency_df df)) (monetary_df df))"

subsection \<open>Quantile binning\<close>

text \<open>
  The functions of this subsection belong to pandas and numpy, not to the script; they are
  modelled from the documented behaviour of the library, in exact arithmetic.

  \<open>Series.quantile(q)\<close> with the default linear interpolation: in the sorted values, the
  value at the position \<open>q * (n - 1)\<close>, interpolated between the two neighbours when the
  position is not whole.
\<close>

definition quantile :: "rat list \<Rightarrow> rat \<Rightarrow> rat" where
  "quantile xs q =
     (let v = sort xs; n = length v; h = of_nat (n - 1) * q; j = nat \<lfloor>h\<rfloor>; g = h - of_int \<lfloor>h\<rfloor>
      in v ! j + g * (v ! min (j + 1) (n - 1) - v ! j))"

text \<open>\<open>np.linspace(0, 1, 11)\<close>: the eleven points 0, 1/10, ..., 1.\<close>

definition linspace :: "rat list" where
  "linspace = map (\<lambda>k. of_nat k / 10) [0..<11]"

definition bin_edges :: "rat list \<Rightarrow> rat list" where
  "bin_edges xs = map (quantile xs) linspace"

text \<open>\<open>bins.searchsorted(x, side='left')\<close>: the number of edges in front of the first edge
  that is not below \<open>x\<close>.\<close>

definition searchsorted :: "rat list \<Rightarrow> rat \<Rightarrow> nat" where
  "searchsorted bins x = length (takeWhile (\<lambda>b. b < x) bins)"

text \<open>
  The bin of a value is \<open>i\<close> when the value lies in the interval from edge \<open>i - 1\<close>
  (excluded) to edge \<open>i\<close> (included); \<open>include_lowest=True\<close> puts the lowest edge itself into
  bin 1.
\<close>

definition bin_id :: "rat list \<Rightarrow> rat \<Rightarrow> nat" where
  "bin_id bins x = (if x = hd bins then 1 else searchsorted bins x)"

text \<open>
  The two ways in which a scoring statement can raise, both a \<open>ValueError\<close> in pandas:
  \<open>qcut\<close> refuses bin edges that are not unique (\<open>duplicates='raise'\<close> is the default; the
  quantiles of an empty column are all NaN and count as equal), and \<open>.astype(int)\<close> refuses
  a value that fell into no bin.
\<close>

datatype error = BinEdgesNotUnique | CannotConvertNaN

text \<open>\<open>pd.qcut(x, 10, labels=labels).astype(int)\<close>\<close>

definition qcut :: "rat list \<Rightarrow> int list \<Rightarrow> error + int list" where
  "qcut x labels =
     (let bins = bin_edges x in
      if x = [] \<or> \<not> distinct bins then Inl BinEdgesNotUnique
      else
        let ids = map (bin_id bins) x in
        if \<exists>i \<in> set ids. i = 0 \<or> i = length bins then Inl CannotConvertNaN
        else Inr (map (\<lambda>i. labels ! (i - 1)) ids))"

text \<open>
  \<open>Series.rank(method='first')\<close>: the position of every entry in the ascending order of
  the values, counted from 1; equal values are ranked in the order in which they stand in
  the column.
\<close>

definition rank_first :: "nat list \<Rightarrow> nat list" where
  "rank_first xs =
     map (\<lambda>i. 1 + length (filter (\<lambda>j. xs ! j < xs ! i \<or> (xs ! j = xs ! i \<and> j < i)) [0..<length xs]))
       [0..<length xs]"

subsection \<open>Scores\<close>

text \<open>\<open>range(10, 0, -1)\<close> and \<open>range(1, 11)\<close>\<close>

definition labels_R :: "int list" where
  "labels_R = [10, 9, 8, 7, 6, 5, 4, 3, 2, 1]"

definition labels_FM :: "int list" where
  "labels_FM = [1, 2, 3, 4, 5, 6, 7, 8, 9, 10]"

text \<open>Python's \<open>str\<close> of an integer: its decimal digits, after a minus sign when negative.\<close>

fun digits :: "nat \<Rightarrow> string" where
  "digits n =
     (if n < 10 then [char_of (48 + n)] else digits (n div 10) @ [char_of (48 + n mod 10)])"

declare digits.simps [simp del]

definition str :: "int \<Rightarrow> string" where
  "str i = (if i < 0 then CHR ''-'' # digits (nat (- i)) else digits (nat i))"

record score = metrics +
  R_Score :: int
  F_Score :: int
  M_Score :: int
  RFM_Score :: string

text \<open>
  The three columns that are binned: \<open>rfm['Recency']\<close>, \<open>rfm['Frequency'].rank(method='first')\<close>
  and \<open>rfm['Monetary']\<close>, as the numbers \<open>qcut\<close> sees.
\<close>

definition Recency_column :: "metrics list \<Rightarrow> rat list" where
  "Recency_column t = map (\<lambda>m. of_int (Recency m)) t"

definition Frequency_rank :: "metrics list \<Rightarrow> rat list" where
  "Frequency_rank t = map of_nat (rank_first (map Frequency t))"

definition Monetary_column :: "metrics list \<Rightarrow> rat list" where
  "Monetary_column t = map Monetary t"

text \<open>
  The three scoring statements run one after the other, so the first that raises ends the
  script; when all succeed, every customer's row is extended by the three scores and their
  concatenation.
\<close>

definition rfm_scores :: "metrics list \<Rightarrow> error + score list" where
  "rfm_scores t =
     (case qcut (Recency_column t) labels_R of
        Inl e \<Rightarrow> Inl e
      | Inr rs \<Rightarrow>
     (case qcut (Frequency_rank t) labels_FM of
        Inl e \<Rightarrow> Inl e
      | Inr fs \<Rightarrow>
     (case qcut (Monetary_column t) labels_FM of
        Inl e \<Rightarrow> Inl e
      | Inr ms \<Rightarrow>
          Inr (map (\<lambda>(m, r, f, mo).
                 \<lparr>Customer = Customer m, Recency = Recency m, Frequency = Frequency m,
                  Monetary = Monetary m, R_Score = r, F_Score = f, M_Score = mo,
                  RFM_Score = str r @ str f @ str mo\<rparr>)
               (zip t (zip rs (zip fs ms)))))))"

definition rfm_engine :: "timestamp sale list \<Rightarrow> error + score list" where
  "rfm_engine df = rfm_scores (rfm df)"

text \<open>\<open>best_customers = rfm[rfm['RFM_Score'] == '101010']\<close>\<close>

definition best_customers :: "score list \<Rightarrow> score list" where
  "best_customers t = filter (\<lambda>r. RFM_Score r = ''101010'') t"

section \<open>Notions used in the statements\<close>

text \<open>
  The row that the three scoring statements compute for the customer at position \<open>i\<close> of the
  table \<open>t\<close>, when none of them raises: the labels \<open>range(10, 0, -1)\<close> turn bin \<open>k\<close> into the
  score \<open>11 - k\<close>, the labels \<open>range(1, 11)\<close> into the score \<open>k\<close>.
\<close>

definition score_row :: "metrics list \<Rightarrow> nat \<Rightarrow> score" where
  "score_row t i =
     \<lparr>Customer = Customer (t ! i), Recency = Recency (t ! i), Frequency = Frequency (t ! i),
      Monetary = Monetary (t ! i),
      R_Score = 11 - int (bin_id (bin_edges (Recency_column t)) (Recency_column t ! i)),
      F_Score = int (bin_id (bin_edges (Frequency_rank t)) (Frequency_rank t ! i)),
      M_Score = int (bin_id (bin_edges (Monetary_column t)) (Monetary_column t ! i)),
      RFM_Score =
        str (11 - int (bin_id (bin_edges (Recency_column t)) (Recency_column t ! i))) @
        str (int (bin_id (bin_edges (Frequency_rank t)) (Frequency_rank t ! i))) @
        str (int (bin_id (bin_edges (Monetary_column t)) (Monetary_column t ! i)))\<rparr>"

text \<open>The number of customers of a scored table that have the score \<open>s\<close> in the column \<open>f\<close>.\<close>

definition population :: "(score \<Rightarrow> int) \<Rightarrow> score list \<Rightarrow> int \<Rightarrow> nat" where
  "population f t s = length (filter (\<lambda>r. f r = s) t)"

text \<open>
  A score column is balanced when it takes every value from 1 to 10 in a table whose length
  is a multiple of 10, and the populations of two scores never differ by more than 1.
\<close>

definition balanced :: "(score \<Rightarrow> int) \<Rightarrow> score list \<Rightarrow> bool" where
  "balanced f t \<longleftrightarrow>
     (10 dvd length t \<longrightarrow> f ` set t = {1..10}) \<and>
     (\<forall>s \<in> {1..10}. \<forall>s' \<in> {1..10}. population f t s \<le> population f t s' + 1)"

text \<open>
  The order in which \<open>rank(method='first')\<close> puts two customers of \<open>rfm\<close>: by frequency, and
  for equal frequencies by their position in the table, which is the order of the customer
  identifiers.
\<close>

definition ranked_before :: "('a metrics_scheme) \<Rightarrow> ('b metrics_scheme) \<Rightarrow> bool" where
  "ranked_before a b \<longleftrightarrow>
     Frequency a < Frequency b \<or> (Frequency a = Frequency b \<and> Customer a \<le> Customer b)"

text \<open>
  The three metrics in the words of the specification: with the reference date one day
  after the latest invoice of the table, the recency of a customer is the number of whole days
  from the customer's last invoice to the reference date, the frequency the number of
  distinct invoice identifiers of the customer, the monetary value the sum of the customer's
  line totals.
\<close>

definition reference_date :: "timestamp sale list \<Rightarrow> timestamp" where
  "reference_date df = Max (InvoiceDate ` set df) + Timedelta_days 1"

definition whole_days :: "timestamp \<Rightarrow> timestamp \<Rightarrow> int" where
  "whole_days t1 t2 = (t2 - t1) div Timedelta_days 1"

definition records_of :: "timestamp sale list \<Rightarrow> nat \<Rightarrow> timestamp sale set" where
  "records_of df c = {r \<in> set df. CustomerID r = Some c}"

definition spec_recency :: "timestamp sale list \<Rightarrow> nat \<Rightarrow> int" where
  "spec_recency df c = whole_days (Max (InvoiceDate ` records_of df c)) (reference_date df)"

definition spec_frequency :: "timestamp sale list \<Rightarrow> nat \<Rightarrow> nat" where
  "spec_frequency df c = card (InvoiceNo ` records_of df c)"

definition spec_monetary :: "timestamp sale list \<Rightarrow> nat \<Rightarrow> rat" where
  "spec_monetary df c = (\<Sum>r \<leftarrow> df. if CustomerID r = Some c then TotalPrice r else 0)"

section \<open>Example tables\<close>

text \<open>
  A cleaned row: customer \<open>c\<close> bought \<open>q\<close> units at the price \<open>p\<close> on invoice \<open>ino\<close>, at
  midnight of day \<open>d\<close> after 1970-01-01.
\<close>

definition sale :: "nat \<Rightarrow> string \<Rightarrow> int \<Rightarrow> int \<Rightarrow> rat \<Rightarrow> timestamp sale" where
  "sale c ino d q p =
     \<lparr>InvoiceNo = ino, CustomerID = Some c, Description = Some ''LANTERN'', Quantity = q,
      UnitPrice = p, InvoiceDate = Timedelta_days d, Country = ''United Kingdom'',
      TotalPrice = of_int q * p\<rparr>"

text \<open>A table in which every customer \<open>c\<close> has one invoice, of one unit, on day \<open>d\<close> at price \<open>p\<close>.\<close>

definition one_invoice_each :: "(nat \<times> int \<times> rat) list \<Rightarrow> timestamp sale list" where
  "one_invoice_each cs = map (\<lambda>(c, d, p). sale c (''INV'' @ str (int c)) d 1 p) cs"

text \<open>What is shown of a scored table: customer, \<open>R_Score\<close>, \<open>F_Score\<close>, \<open>M_Score\<close>, \<open>RFM_Score\<close>.\<close>

definition shown :: "score \<Rightarrow> nat \<times> int \<times> int \<times> int \<times> string" where
  "shown r = (Customer r, R_Score r, F_Score r, M_Score r, RFM_Score r)"

definition outcome :: "error + score list \<Rightarrow> error + (nat \<times> int \<times> int \<times> int \<times> string) list" where
  "outcome res = map_sum id (map shown) res"

text \<open>
  Ten customers with one invoice each. Customer 1 bought last and spent most; all
  frequencies are equal.
\<close>

definition ties_df :: "timestamp sale list" where
  "ties_df = one_invoice_each
     [(1, 99, 99), (2, 98, 98), (3, 97, 97), (4, 96, 96), (5, 95, 95),
      (6, 94, 94), (7, 93, 93), (8, 92, 92), (9, 91, 91), (10, 90, 90)]"

text \<open>Nine customers, with pairwise different last days and amounts.\<close>

definition nine_df :: "timestamp sale list" where
  "nine_df = one_invoice_each
     [(1, 91, 10), (2, 92, 20), (3, 93, 30), (4, 94, 40), (5, 95, 50),
      (6, 96, 60), (7, 97, 70), (8, 98, 80), (9, 99, 90)]"

text \<open>Ten customers; the only row of customer 1 is a return of two units (a row that the
  cleaning would have removed), so that the customer's monetary value is negative.\<close>

definition returns_df :: "timestamp sale list" where
  "returns_df = sale 1 ''C536379'' 90 (- 2) 5 # one_invoice_each
     [(2, 91, 20), (3, 92, 30), (4, 93, 40), (5, 94, 50),
      (6, 95, 60), (7, 96, 70), (8, 97, 80), (9, 98, 90), (10, 99, 100)]"

text \<open>Ten customers with the recencies 1, 2, 2, 3, 4, 5, 6, 7, 8, 9 (nine different values) and
  ten different positive amounts.\<close>

definition nine_recencies_df :: "timestamp sale list" where
  "nine_recencies_df = one_invoice_each
     [(1, 99, 10), (2, 98, 20), (3, 98, 30), (4, 97, 40), (5, 96, 50),
      (6, 95, 60), (7, 94, 70), (8, 93, 80), (9, 92, 90), (10, 91, 100)]"

text \<open>Ten customers who all bought on the same day, with ten different positive amounts.\<close>

definition same_day_df :: "timestamp sale list" where
  "same_day_df = one_invoice_each
     [(1, 99, 10), (2, 99, 20), (3, 99, 30), (4, 99, 40), (5, 99, 50),
      (6, 99, 60), (7, 99, 70), (8, 99, 80), (9, 99, 90), (10, 99, 100)]"

text \<open>Ten customers with the recencies 1, 11, 11, 21, 31, 41, 51, 61, 71, 81.\<close>

definition gap_df :: "timestamp sale list" where
  "gap_df = one_invoice_each
     [(1, 99, 10), (2, 89, 20), (3, 89, 30), (4, 79, 40), (5, 69, 50),
      (6, 59, 60), (7, 49, 70), (8, 39, 80), (9, 29, 90), (10, 19, 100)]"

text \<open>Two customers; customer 2 bought last, on two invoices, and spent more.\<close>

definition two_df :: "timestamp sale list" where
  "two_df = [sale 1 ''A1'' 10 1 5, sale 2 ''B1'' 11 1 7, sale 2 ''B2'' 12 2 7]"

text \<open>One customer with invoices on 2011-01-01 and 2011-01-10, the days 14975 and 14984 after
  1970-01-01.\<close>

definition c1_df :: "timestamp sale list" where
  "c1_df = [sale 1 ''A1'' 14975 1 5, sale 1 ''A2'' 14984 3 2]"

text \<open>Raw rows, dates as text: a row and its exact duplicate, a row without customer, a
  return, a free item and a second good row.\<close>

definition raw_row ::
  "string \<Rightarrow> nat option \<Rightarrow> string option \<Rightarrow> int \<Rightarrow> rat \<Rightarrow> 'd \<Rightarrow> 'd row" where
  "raw_row ino c desc q p d =
     \<lparr>InvoiceNo = ino, CustomerID = c, Description = desc, Quantity = q, UnitPrice = p,
      InvoiceDate = d, Country = ''United Kingdom''\<rparr>"

definition raw_rows :: "string row list" where
  "raw_rows =
     [raw_row ''536365'' (Some 17850) (Some ''LANTERN'') 6 (339 / 100) ''12/1/2010 8:26'',
      raw_row ''536365'' (Some 17850) (Some ''LANTERN'') 6 (339 / 100) ''12/1/2010 8:26'',
      raw_row ''536414'' None (Some ''LANTERN'') 56 (339 / 100) ''12/1/2010 11:52'',
      raw_row ''C536379'' (Some 14527) (Some ''DISCOUNT'') (- 1) (55 / 2) ''12/1/2010 9:41'',
      raw_row ''536446'' (Some 15983) (Some ''MUG'') 1 0 ''12/1/2010 12:15'',
      raw_row ''536367'' (Some 13047) (Some ''MUG'') 32 (169 / 100) ''12/1/2010 8:34'']"

section \<open>Auxiliary facts\<close>

subsection \<open>Quantiles\<close>

lemma virtual_index_bounds:
  fixes q :: rat
  assumes "0 \<le> q" "q \<le> 1"
  shows "0 \<le> of_nat m * q" "of_nat m * q \<le> of_nat m" "nat \<lfloor>of_nat m * q\<rfloor> \<le> m"
proof -
  show h0: "0 \<le> of_nat m * q" using assms by simp
  show hm: "of_nat m * q \<le> of_nat m" using assms by (simp add: mult_left_le)
  have "\<lfloor>of_nat m * q\<rfloor> \<le> \<lfloor>(of_nat m :: rat)\<rfloor>" using hm by (rule floor_mono)
  then show "nat \<lfloor>of_nat m * q\<rfloor> \<le> m" by simp
qed

lemma quantile_between:
  assumes "xs \<noteq> []" "0 \<le> q" "q \<le> 1"
  defines "j \<equiv> nat \<lfloor>of_nat (length xs - 1) * q\<rfloor>"
  shows "sort xs ! j \<le> quantile xs q"
    and "quantile xs q \<le> sort xs ! min (j + 1) (length xs - 1)"
proof -
  let ?v = "sort xs" and ?h = "of_nat (length xs - 1) * q"
  let ?g = "?h - of_int \<lfloor>?h\<rfloor>"
  let ?k = "min (j + 1) (length xs - 1)"
  have n: "0 < length xs" using assms(1) by simp
  have j: "j \<le> length xs - 1" unfolding j_def using virtual_index_bounds(3)[OF assms(2,3)] .
  have jk: "j \<le> ?k" using j by simp
  have k: "?k < length xs" using n by arith
  have le: "?v ! j \<le> ?v ! ?k" using jk k by (intro sorted_nth_mono) simp_all
  have g0: "0 \<le> ?g" and g1: "?g < 1" by linarith+
  have q: "quantile xs q = ?v ! j + ?g * (?v ! ?k - ?v ! j)"
    by (simp add: quantile_def Let_def j_def)
  show "sort xs ! j \<le> quantile xs q" using q g0 le by simp
  have "?g * (?v ! ?k - ?v ! j) \<le> 1 * (?v ! ?k - ?v ! j)"
    using g1 le by (intro mult_right_mono) simp_all
  then show "quantile xs q \<le> ?v ! ?k" using q by simp
qed

lemma quantile_mono:
  assumes "xs \<noteq> []" "0 \<le> q" "q \<le> q'" "q' \<le> 1"
  shows "quantile xs q \<le> quantile xs q'"
proof -
  let ?v = "sort xs" and ?m = "length xs - 1"
  let ?h = "of_nat ?m * q" and ?h' = "of_nat ?m * q'"
  let ?j = "nat \<lfloor>?h\<rfloor>" and ?j' = "nat \<lfloor>?h'\<rfloor>"
  have q1: "q \<le> 1" and q0': "0 \<le> q'" using assms by linarith+
  have hh: "?h \<le> ?h'" using assms by (simp add: mult_left_mono)
  have h0: "0 \<le> ?h" using assms by simp
  have fl: "\<lfloor>?h\<rfloor> \<le> \<lfloor>?h'\<rfloor>" using hh by (rule floor_mono)
  have f0: "0 \<le> \<lfloor>?h\<rfloor>" using h0 by simp
  have jj: "?j \<le> ?j'" using fl by simp
  have j': "?j' \<le> ?m" using virtual_index_bounds(3)[OF q0' assms(4)] .
  show ?thesis
  proof (cases "?j = ?j'")
    case True
    then have feq: "\<lfloor>?h\<rfloor> = \<lfloor>?h'\<rfloor>" using f0 fl by linarith
    let ?d = "?v ! min (?j + 1) ?m - ?v ! ?j"
    have d0: "0 \<le> ?d"
      using quantile_between[OF assms(1,2) q1] by linarith
    have "quantile xs q = ?v ! ?j + (?h - of_int \<lfloor>?h\<rfloor>) * ?d"
      by (simp add: quantile_def Let_def)
    moreover have "quantile xs q' = ?v ! ?j + (?h' - of_int \<lfloor>?h\<rfloor>) * ?d"
      using True feq by (simp add: quantile_def Let_def)
    moreover have "(?h - of_int \<lfloor>?h\<rfloor>) * ?d \<le> (?h' - of_int \<lfloor>?h\<rfloor>) * ?d"
      using hh d0 by (intro mult_right_mono) simp_all
    ultimately show ?thesis by simp
  next
    case False
    then have lt: "?j + 1 \<le> ?j'" using jj by simp
    have n: "0 < length xs" using assms(1) by simp
    have "quantile xs q \<le> ?v ! min (?j + 1) ?m"
      using quantile_between(2)[OF assms(1,2) q1] .
    also have "\<dots> \<le> ?v ! ?j'"
      using lt j' n by (intro sorted_nth_mono) simp_all
    also have "\<dots> \<le> quantile xs q'"
      using quantile_between(1)[OF assms(1) q0' assms(4)] .
    finally show ?thesis .
  qed
qed

lemma quantile_0: "xs \<noteq> [] \<Longrightarrow> quantile xs 0 = sort xs ! 0"
  by (simp add: quantile_def Let_def)

lemma quantile_1: "xs \<noteq> [] \<Longrightarrow> quantile xs 1 = sort xs ! (length xs - 1)"
  by (simp add: quantile_def Let_def)

lemma sort_nth_0:
  fixes xs :: "rat list"
  assumes "x \<in> set xs" "\<forall>y \<in> set xs. x \<le> y"
  shows "sort xs ! 0 = x"
proof -
  have n: "0 < length (sort xs)" using assms(1) by (cases xs) auto
  have "sort xs ! 0 \<in> set (sort xs)" using n by (rule nth_mem)
  then have a: "x \<le> sort xs ! 0" using assms(2) by simp
  obtain i where i: "i < length (sort xs)" "sort xs ! i = x"
    using assms(1) by (metis in_set_conv_nth set_sort)
  have "sort xs ! 0 \<le> sort xs ! i" using i(1) by (intro sorted_nth_mono) simp_all
  then show ?thesis using a i(2) by simp
qed

lemma sort_nth_last:
  fixes xs :: "rat list"
  assumes "x \<in> set xs" "\<forall>y \<in> set xs. y \<le> x"
  shows "sort xs ! (length xs - 1) = x"
proof -
  have n: "0 < length (sort xs)" using assms(1) by (cases xs) auto
  have "sort xs ! (length xs - 1) \<in> set (sort xs)" using n by (intro nth_mem) simp
  then have a: "sort xs ! (length xs - 1) \<le> x" using assms(2) by simp
  obtain i where i: "i < length (sort xs)" "sort xs ! i = x"
    using assms(1) by (metis in_set_conv_nth set_sort)
  have "sort xs ! i \<le> sort xs ! (length xs - 1)" using i(1) n by (intro sorted_nth_mono) simp_all
  then show ?thesis using a i(2) by simp
qed

lemma length_bin_edges: "length (bin_edges xs) = 11"
  by (simp add: bin_edges_def linspace_def)

lemma bin_edges_nth: "k < 11 \<Longrightarrow> bin_edges xs ! k = quantile xs (of_nat k / 10)"
  by (simp add: bin_edges_def linspace_def del: upt_Suc)

lemma sorted_bin_edges:
  assumes "xs \<noteq> []"
  shows "sorted (bin_edges xs)"
proof -
  have "bin_edges xs ! i \<le> bin_edges xs ! k" if "i \<le> k" "k < length (bin_edges xs)" for i k
  proof -
    have k: "k < 11" and i: "i < 11" using that by (simp_all add: length_bin_edges)
    have "quantile xs (of_nat i / 10) \<le> quantile xs (of_nat k / 10)"
      using that k by (intro quantile_mono[OF assms]) simp_all
    then show ?thesis using i k by (simp add: bin_edges_nth)
  qed
  then show ?thesis by (simp add: sorted_iff_nth_mono)
qed

lemma hd_bin_edges: "xs \<noteq> [] \<Longrightarrow> hd (bin_edges xs) = sort xs ! 0"
  by (simp add: bin_edges_def linspace_def upt_rec quantile_0)

lemma last_bin_edges: "xs \<noteq> [] \<Longrightarrow> bin_edges xs ! 10 = sort xs ! (length xs - 1)"
  by (simp add: bin_edges_nth quantile_1)

subsection \<open>Bins\<close>

lemma searchsorted_le_iff:
  assumes "sorted bs" "s < length bs"
  shows "searchsorted bs x \<le> s \<longleftrightarrow> x \<le> bs ! s"
proof
  let ?c = "length (takeWhile (\<lambda>b. b < x) bs)"
  assume "searchsorted bs x \<le> s"
  then have cs: "?c \<le> s" by (simp add: searchsorted_def)
  then have "?c < length bs" using assms(2) by simp
  then have "\<not> bs ! ?c < x" by (rule nth_length_takeWhile)
  moreover have "bs ! ?c \<le> bs ! s" using assms cs by (intro sorted_nth_mono)
  ultimately show "x \<le> bs ! s" by simp
next
  let ?c = "length (takeWhile (\<lambda>b. b < x) bs)"
  assume le: "x \<le> bs ! s"
  show "searchsorted bs x \<le> s"
  proof (rule ccontr)
    assume "\<not> searchsorted bs x \<le> s"
    then have sc: "s < ?c" by (simp add: searchsorted_def)
    then have "takeWhile (\<lambda>b. b < x) bs ! s \<in> set (takeWhile (\<lambda>b. b < x) bs)"
      by (rule nth_mem)
    then have "takeWhile (\<lambda>b. b < x) bs ! s < x" by (rule set_takeWhileD[THEN conjunct2])
    then have "bs ! s < x" using sc by (simp add: takeWhile_nth)
    then show False using le by simp
  qed
qed

lemma bin_id_le_iff:
  assumes "sorted bs" "s < length bs" "1 \<le> s" "hd bs \<le> x"
  shows "bin_id bs x \<le> s \<longleftrightarrow> x \<le> bs ! s"
proof (cases "x = hd bs")
  case True
  have "bs \<noteq> []" using assms(2) by auto
  then have "hd bs = bs ! 0" by (simp add: hd_conv_nth)
  moreover have "bs ! 0 \<le> bs ! s" using assms(1,2) by (intro sorted_nth_mono) simp_all
  ultimately show ?thesis using True assms(3) by (simp add: bin_id_def)
next
  case False
  then show ?thesis using searchsorted_le_iff[OF assms(1,2)] by (simp add: bin_id_def)
qed

lemma bin_id_ge_1:
  assumes "bs \<noteq> []" "hd bs \<le> x"
  shows "1 \<le> bin_id bs x"
proof (cases "x = hd bs")
  case True
  then show ?thesis by (simp add: bin_id_def)
next
  case False
  then have "hd bs < x" using assms(2) by simp
  then have "takeWhile (\<lambda>b. b < x) bs \<noteq> []" using assms(1) by (cases bs) auto
  then show ?thesis using False by (cases "takeWhile (\<lambda>b. b < x) bs") (auto simp: bin_id_def searchsorted_def)
qed

lemma member_between:
  fixes xs :: "rat list"
  assumes "x \<in> set xs"
  shows "sort xs ! 0 \<le> x" and "x \<le> sort xs ! (length xs - 1)"
proof -
  obtain i where i: "i < length (sort xs)" "sort xs ! i = x"
    using assms by (metis in_set_conv_nth set_sort)
  have "sort xs ! 0 \<le> sort xs ! i" using i(1) by (intro sorted_nth_mono) simp_all
  then show "sort xs ! 0 \<le> x" using i(2) by simp
  have "sort xs ! i \<le> sort xs ! (length xs - 1)" using i(1) by (intro sorted_nth_mono) simp_all
  then show "x \<le> sort xs ! (length xs - 1)" using i(2) by simp
qed

lemma bin_id_range:
  assumes "x \<in> set xs"
  shows "1 \<le> bin_id (bin_edges xs) x" and "bin_id (bin_edges xs) x \<le> 10"
proof -
  have ne: "xs \<noteq> []" using assms by auto
  have bne: "bin_edges xs \<noteq> []" using length_bin_edges[of xs] by auto
  have lo: "hd (bin_edges xs) \<le> x" using member_between(1)[OF assms] ne by (simp add: hd_bin_edges)
  show "1 \<le> bin_id (bin_edges xs) x" using bne lo by (rule bin_id_ge_1)
  have "x \<le> bin_edges xs ! 10" using member_between(2)[OF assms] ne by (simp add: last_bin_edges)
  then show "bin_id (bin_edges xs) x \<le> 10"
    using bin_id_le_iff[OF sorted_bin_edges[OF ne], of 10 x] lo by (simp add: length_bin_edges)
qed

lemma qcut_eq:
  "qcut xs labs =
     (if xs = [] \<or> \<not> distinct (bin_edges xs) then Inl BinEdgesNotUnique
      else Inr (map (\<lambda>x. labs ! (bin_id (bin_edges xs) x - 1)) xs))"
proof -
  have "\<not> (\<exists>i \<in> set (map (bin_id (bin_edges xs)) xs). i = 0 \<or> i = length (bin_edges xs))"
    using bin_id_range by (fastforce simp: length_bin_edges)
  then show ?thesis by (auto simp add: qcut_def Let_def comp_def)
qed

lemma bin_id_mono:
  assumes "x \<in> set xs" "y \<in> set xs" "x \<le> y"
  shows "bin_id (bin_edges xs) x \<le> bin_id (bin_edges xs) y"
proof -
  let ?bs = "bin_edges xs"
  have ne: "xs \<noteq> []" using assms by auto
  have lo: "hd ?bs \<le> x" "hd ?bs \<le> y"
    using member_between(1) assms ne by (simp_all add: hd_bin_edges)
  have s: "1 \<le> bin_id ?bs y" "bin_id ?bs y < length ?bs"
    using bin_id_range[OF assms(2)] by (simp_all add: length_bin_edges)
  have "y \<le> ?bs ! bin_id ?bs y"
    using bin_id_le_iff[OF sorted_bin_edges[OF ne] s(2) s(1) lo(2)] by simp
  then have "x \<le> ?bs ! bin_id ?bs y" using assms(3) by simp
  then show ?thesis using bin_id_le_iff[OF sorted_bin_edges[OF ne] s(2) s(1) lo(1)] by simp
qed

lemma bin_id_lowest:
  assumes "x \<in> set xs" "\<forall>y \<in> set xs. x \<le> y"
  shows "bin_id (bin_edges xs) x = 1"
proof -
  have "xs \<noteq> []" using assms by auto
  then have "hd (bin_edges xs) = x" using sort_nth_0[OF assms] by (simp add: hd_bin_edges)
  then show ?thesis by (simp add: bin_id_def)
qed

lemma bin_id_highest:
  assumes "x \<in> set xs" "\<forall>y \<in> set xs. y \<le> x" "distinct (bin_edges xs)"
  shows "bin_id (bin_edges xs) x = 10"
proof -
  let ?bs = "bin_edges xs"
  have ne: "xs \<noteq> []" using assms by auto
  have top: "?bs ! 10 = x" using sort_nth_last[OF assms(1,2)] ne by (simp add: last_bin_edges)
  have "?bs ! 9 \<le> ?bs ! 10"
    using sorted_bin_edges[OF ne] by (intro sorted_nth_mono) (simp_all add: length_bin_edges)
  moreover have "?bs ! 9 \<noteq> ?bs ! 10"
    using assms(3) by (simp add: distinct_conv_nth length_bin_edges)
  ultimately have "?bs ! 9 < x" using top by simp
  moreover have "hd ?bs \<le> x" using member_between(1)[OF assms(1)] ne by (simp add: hd_bin_edges)
  ultimately have "\<not> bin_id ?bs x \<le> 9"
    using bin_id_le_iff[OF sorted_bin_edges[OF ne], of 9 x] by (simp add: length_bin_edges)
  then show ?thesis using bin_id_range(2)[OF assms(1)] by simp
qed

subsection \<open>Columns of pairwise different values\<close>

lemma strict_sorted_sort:
  fixes xs :: "rat list"
  assumes "distinct xs" "i < j" "j < length xs"
  shows "sort xs ! i < sort xs ! j"
proof -
  have "sort xs ! i \<le> sort xs ! j" using assms by (intro sorted_nth_mono) simp_all
  moreover have "sort xs ! i \<noteq> sort xs ! j"
    using assms distinct_sort[of "\<lambda>x. x" xs] by (simp add: nth_eq_iff_index_eq)
  ultimately show ?thesis by simp
qed

lemma quantile_unfold:
  "quantile xs q =
     sort xs ! nat \<lfloor>of_nat (length xs - 1) * q\<rfloor> +
     (of_nat (length xs - 1) * q - of_int \<lfloor>of_nat (length xs - 1) * q\<rfloor>) *
       (sort xs ! min (nat \<lfloor>of_nat (length xs - 1) * q\<rfloor> + 1) (length xs - 1) -
        sort xs ! nat \<lfloor>of_nat (length xs - 1) * q\<rfloor>)"
  by (simp add: quantile_def Let_def)

lemma quantile_strict_upper:
  assumes "distinct xs" "0 \<le> q" "q \<le> 1"
    and "nat \<lfloor>of_nat (length xs - 1) * q\<rfloor> < length xs - 1"
  shows "quantile xs q < sort xs ! (nat \<lfloor>of_nat (length xs - 1) * q\<rfloor> + 1)"
proof -
  define h where "h = of_nat (length xs - 1) * q"
  define j where "j = nat \<lfloor>h\<rfloor>"
  define v where "v = sort xs"
  have jm: "j < length xs - 1" using assms(4) by (simp only: j_def h_def)
  have m: "min (j + 1) (length xs - 1) = j + 1" using jm by (intro min_absorb1) linarith
  have "j + 1 < length xs" using jm by linarith
  then have lt: "v ! j < v ! (j + 1)" unfolding v_def using assms(1) by (intro strict_sorted_sort) simp_all
  have g1: "h - of_int \<lfloor>h\<rfloor> < 1" by linarith
  have "(h - of_int \<lfloor>h\<rfloor>) * (v ! (j + 1) - v ! j) < 1 * (v ! (j + 1) - v ! j)"
    using g1 lt by (intro mult_strict_right_mono) simp_all
  moreover have "quantile xs q = v ! j + (h - of_int \<lfloor>h\<rfloor>) * (v ! min (j + 1) (length xs - 1) - v ! j)"
    unfolding v_def j_def h_def by (rule quantile_unfold)
  ultimately have "quantile xs q < v ! (j + 1)" using m by simp
  then show ?thesis by (simp only: v_def j_def h_def)
qed

lemma nth_le_quantile_iff:
  assumes "distinct xs" "0 \<le> q" "q \<le> 1" "p < length xs"
  shows "sort xs ! p \<le> quantile xs q \<longleftrightarrow> of_nat p \<le> of_nat (length xs - 1) * q"
proof -
  define h where "h = of_nat (length xs - 1) * q"
  define j where "j = nat \<lfloor>h\<rfloor>"
  define v where "v = sort xs"
  have ne: "xs \<noteq> []" using assms(4) by auto
  have h0: "0 \<le> h" unfolding h_def using assms(2) by simp
  have j: "j \<le> length xs - 1"
    unfolding j_def h_def using virtual_index_bounds(3)[OF assms(2,3)] .
  have jn: "j < length v" unfolding v_def length_sort using j assms(4) by linarith
  have lo: "v ! j \<le> quantile xs q"
    unfolding v_def j_def h_def using quantile_between(1)[OF ne assms(2,3)] .
  have a: "v ! p \<le> quantile xs q" if "of_nat p \<le> h"
  proof -
    have "int p \<le> \<lfloor>h\<rfloor>" using that by (simp add: le_floor_iff)
    then have "p \<le> j" unfolding j_def by simp
    then have "v ! p \<le> v ! j" unfolding v_def using jn[unfolded v_def] by (intro sorted_nth_mono) simp_all
    then show ?thesis using lo by simp
  qed
  have b: "of_nat p \<le> h" if le: "v ! p \<le> quantile xs q"
  proof (rule ccontr)
    assume "\<not> of_nat p \<le> h"
    then have "h < of_nat p" by simp
    then have "\<lfloor>h\<rfloor> < int p" by (simp add: floor_less_iff)
    then have jp: "j + 1 \<le> p" unfolding j_def using h0 by linarith
    then have jm: "j < length xs - 1" using assms(4) by linarith
    have "quantile xs q < v ! (j + 1)"
      unfolding v_def j_def h_def
      by (rule quantile_strict_upper[OF assms(1,2,3)]) (use jm in \<open>simp only: j_def h_def\<close>)
    also have "\<dots> \<le> v ! p" unfolding v_def using jp assms(4) by (intro sorted_nth_mono) simp_all
    finally show False using le by simp
  qed
  show ?thesis using a b unfolding v_def h_def by blast
qed

lemma quantile_strict_mono:
  assumes "distinct xs" "2 \<le> length xs" "0 \<le> q" "q < q'" "q' \<le> 1"
  shows "quantile xs q < quantile xs q'"
proof -
  define m where "m = length xs - 1"
  define h where "h = of_nat m * q"
  define h' where "h' = of_nat m * q'"
  define j where "j = nat \<lfloor>h\<rfloor>"
  define j' where "j' = nat \<lfloor>h'\<rfloor>"
  define v where "v = sort xs"
  have ne: "xs \<noteq> []" using assms(2) by auto
  have q1: "q \<le> 1" and q0': "0 \<le> q'" using assms by linarith+
  have "0 < m" unfolding m_def using assms(2) by linarith
  then have m0: "(0::rat) < of_nat m" by simp
  have hh: "h < h'" unfolding h_def h'_def using assms(4) m0 by (simp add: mult_strict_left_mono)
  have h0: "0 \<le> h" unfolding h_def using assms(3) by simp
  have hm': "h' \<le> of_nat m" unfolding h'_def using virtual_index_bounds(2)[OF q0' assms(5)] .
  have "h < of_nat m" using hh hm' by linarith
  then have "\<lfloor>h\<rfloor> < int m" by (simp add: floor_less_iff)
  then have jm: "j < m" unfolding j_def using h0 by linarith
  have up: "quantile xs q < v ! (j + 1)"
    unfolding v_def j_def h_def m_def
    by (rule quantile_strict_upper[OF assms(1,3) q1]) (use jm in \<open>simp only: j_def h_def m_def\<close>)
  have fl: "\<lfloor>h\<rfloor> \<le> \<lfloor>h'\<rfloor>" using hh by (intro floor_mono) simp
  have f0: "0 \<le> \<lfloor>h\<rfloor>" using h0 by simp
  have j': "j' \<le> m" unfolding j'_def h'_def using virtual_index_bounds(3)[OF q0' assms(5)] .
  have j'n: "j' < length v" unfolding v_def length_sort using j' assms(2) m_def by linarith
  have qq: "quantile xs q = v ! j + (h - of_int \<lfloor>h\<rfloor>) * (v ! min (j + 1) m - v ! j)"
    unfolding v_def j_def h_def m_def by (rule quantile_unfold)
  have qq': "quantile xs q' = v ! j' + (h' - of_int \<lfloor>h'\<rfloor>) * (v ! min (j' + 1) m - v ! j')"
    unfolding v_def j'_def h'_def m_def by (rule quantile_unfold)
  show ?thesis
  proof (cases "j = j'")
    case True
    then have feq: "\<lfloor>h'\<rfloor> = \<lfloor>h\<rfloor>" unfolding j_def j'_def using f0 fl by linarith
    have mn: "min (j + 1) m = j + 1" using jm by (intro min_absorb1) linarith
    have jn: "j + 1 < length xs" using jm m_def by linarith
    have d0: "0 < v ! (j + 1) - v ! j"
      unfolding v_def using strict_sorted_sort[OF assms(1) _ jn, of j] by simp
    have "(h - of_int \<lfloor>h\<rfloor>) * (v ! (j + 1) - v ! j) < (h' - of_int \<lfloor>h\<rfloor>) * (v ! (j + 1) - v ! j)"
      using hh d0 by (intro mult_strict_right_mono) simp_all
    then show ?thesis using qq qq' True[symmetric] feq mn by simp
  next
    case False
    then have lt: "j + 1 \<le> j'" unfolding j_def j'_def using fl f0 by linarith
    have "v ! (j + 1) \<le> v ! j'" unfolding v_def using lt j'n[unfolded v_def] by (intro sorted_nth_mono) simp_all
    also have "\<dots> \<le> quantile xs q'"
      unfolding v_def j'_def h'_def m_def using quantile_between(1)[OF ne q0' assms(5)] .
    finally show ?thesis using up by simp
  qed
qed

lemma distinct_bin_edges:
  assumes "distinct xs" "2 \<le> length xs"
  shows "distinct (bin_edges xs)"
proof -
  have lt: "bin_edges xs ! i < bin_edges xs ! k" if "i < k" "k < 11" for i k
  proof -
    have "quantile xs (of_nat i / 10) < quantile xs (of_nat k / 10)"
      using that by (intro quantile_strict_mono[OF assms]) simp_all
    then show ?thesis using that by (simp add: bin_edges_nth)
  qed
  have "bin_edges xs ! i \<noteq> bin_edges xs ! k" if "i < 11" "k < 11" "i \<noteq> k" for i k
  proof (cases "i < k")
    case True
    then show ?thesis using lt[of i k] that by simp
  next
    case False
    then have "k < i" using that by simp
    then show ?thesis using lt[of k i] that by simp
  qed
  then show ?thesis by (simp add: distinct_conv_nth length_bin_edges)
qed

subsection \<open>Populations of the bins\<close>

lemma length_filter_sort:
  fixes xs :: "rat list"
  shows "length (filter P (sort xs)) = length (filter P xs)"
proof -
  have "mset (filter P (sort xs)) = mset (filter P xs)" by simp
  then show ?thesis by (metis size_mset)
qed

lemma cumulative_count:
  assumes "distinct xs" "2 \<le> length xs" "1 \<le> s" "s \<le> 10"
  shows "length (filter (\<lambda>x. bin_id (bin_edges xs) x \<le> s) xs) = 1 + ((length xs - 1) * s) div 10"
proof -
  define m where "m = length xs - 1"
  define e where "e = quantile xs (of_nat s / 10)"
  have ne: "xs \<noteq> []" using assms(2) by auto
  have n: "length xs = m + 1" unfolding m_def using assms(2) by linarith
  have e: "bin_edges xs ! s = e" unfolding e_def using assms(4) by (simp add: bin_edges_nth)
  have "bin_id (bin_edges xs) x \<le> s \<longleftrightarrow> x \<le> e" if "x \<in> set xs" for x
  proof -
    have "hd (bin_edges xs) \<le> x" using member_between(1)[OF that] ne by (simp add: hd_bin_edges)
    then show ?thesis
      using bin_id_le_iff[OF sorted_bin_edges[OF ne], of s x] assms(3,4) e
      by (simp add: length_bin_edges)
  qed
  then have "filter (\<lambda>x. bin_id (bin_edges xs) x \<le> s) xs = filter (\<lambda>x. x \<le> e) xs"
    by (intro filter_cong) simp_all
  then have "length (filter (\<lambda>x. bin_id (bin_edges xs) x \<le> s) xs) = length (filter (\<lambda>x. x \<le> e) (sort xs))"
    by (simp add: length_filter_sort)
  also have "\<dots> = card {p. p < length (sort xs) \<and> sort xs ! p \<le> e}"
    by (rule length_filter_conv_card)
  also have "{p. p < length (sort xs) \<and> sort xs ! p \<le> e} = {p. p \<le> (m * s) div 10}"
  proof (intro Collect_cong)
    fix p
    have ms: "(m * s) div 10 \<le> m"
    proof -
      have "m * s \<le> m * 10" using assms(4) by (intro mult_le_mono2)
      then show ?thesis by linarith
    qed
    show "(p < length (sort xs) \<and> sort xs ! p \<le> e) \<longleftrightarrow> p \<le> (m * s) div 10"
    proof (cases "p < length xs")
      case True
      have "sort xs ! p \<le> e \<longleftrightarrow> (of_nat p :: rat) \<le> of_nat m * (of_nat s / 10)"
        unfolding e_def m_def using assms(4) by (intro nth_le_quantile_iff[OF assms(1) _ _ True]) simp_all
      also have "\<dots> \<longleftrightarrow> (of_nat (10 * p) :: rat) \<le> of_nat (m * s)"
        by (simp add: field_simps)
      also have "\<dots> \<longleftrightarrow> 10 * p \<le> m * s" by (rule of_nat_le_iff)
      also have "\<dots> \<longleftrightarrow> p \<le> (m * s) div 10" by linarith
      finally show ?thesis using True by simp
    next
      case False
      then show ?thesis using ms n by simp
    qed
  qed
  also have "card {p. p \<le> (m * s) div 10} = 1 + (m * s) div 10"
    by (simp flip: atMost_def)
  finally show ?thesis unfolding m_def .
qed

lemma length_filter_le_split:
  fixes f :: "'a \<Rightarrow> nat"
  assumes "1 \<le> s"
  shows "length (filter (\<lambda>x. f x \<le> s) xs) =
         length (filter (\<lambda>x. f x \<le> s - 1) xs) + length (filter (\<lambda>x. f x = s) xs)"
  using assms by (induction xs) auto

lemma bin_population:
  assumes "distinct xs" "2 \<le> length xs" "1 \<le> s" "s \<le> 10"
  shows "length (filter (\<lambda>x. bin_id (bin_edges xs) x = s) xs) =
         (if s = 1 then 1 + (length xs - 1) div 10
          else ((length xs - 1) * s) div 10 - ((length xs - 1) * (s - 1)) div 10)"
proof (cases "s = 1")
  case True
  have "filter (\<lambda>x. bin_id (bin_edges xs) x = 1) xs = filter (\<lambda>x. bin_id (bin_edges xs) x \<le> 1) xs"
    using bin_id_range(1) by (intro filter_cong) force+
  then show ?thesis using True cumulative_count[OF assms(1,2), of 1] by simp
next
  case False
  then have s1: "1 \<le> s - 1" "s - 1 \<le> 10" using assms(3,4) by linarith+
  show ?thesis
    using length_filter_le_split[OF assms(3), of "bin_id (bin_edges xs)" xs]
      cumulative_count[OF assms] cumulative_count[OF assms(1,2) s1] False
    by simp
qed

lemma div_step:
  fixes m x :: nat
  shows "m div 10 \<le> (x + m) div 10 - x div 10" and "(x + m) div 10 - x div 10 \<le> m div 10 + 1"
  by arith+

lemma div10_aux: "X + t = 10 * Y \<Longrightarrow> 1 \<le> t \<Longrightarrow> t \<le> 10 \<Longrightarrow> X div 10 = Y - (1::nat)"
  by arith

lemma bin_population_bounds:
  assumes "distinct xs" "2 \<le> length xs" "1 \<le> s" "s \<le> 10"
  shows "(length xs - 1) div 10 \<le> length (filter (\<lambda>x. bin_id (bin_edges xs) x = s) xs)"
    and "length (filter (\<lambda>x. bin_id (bin_edges xs) x = s) xs) \<le> (length xs - 1) div 10 + 1"
proof -
  define m where "m = length xs - 1"
  have "m * s = m * (s - 1) + m" using assms(3) by (cases s) simp_all
  then have "m div 10 \<le> (m * s) div 10 - (m * (s - 1)) div 10"
    and "(m * s) div 10 - (m * (s - 1)) div 10 \<le> m div 10 + 1"
    using div_step[where m = m and x = "m * (s - 1)"] by simp_all
  then show "(length xs - 1) div 10 \<le> length (filter (\<lambda>x. bin_id (bin_edges xs) x = s) xs)"
    and "length (filter (\<lambda>x. bin_id (bin_edges xs) x = s) xs) \<le> (length xs - 1) div 10 + 1"
    unfolding bin_population[OF assms] m_def by simp_all
qed

lemma bin_population_multiple:
  assumes "distinct xs" "10 dvd length xs" "xs \<noteq> []" "1 \<le> s" "s \<le> 10"
  shows "length (filter (\<lambda>x. bin_id (bin_edges xs) x = s) xs) = length xs div 10"
proof -
  define m where "m = length xs - 1"
  obtain c where c: "length xs = 10 * c" using assms(2) by (elim dvdE)
  have c0: "0 < c" using c assms(3) by (cases c) simp_all
  have n2: "2 \<le> length xs" using c c0 by linarith
  have m: "m + 1 = 10 * c" unfolding m_def using c c0 by linarith
  have cum: "(m * t) div 10 = c * t - 1" if "1 \<le> t" "t \<le> 10" for t
  proof -
    have "m * t + t = (m + 1) * t" by simp
    also have "\<dots> = (10 * c) * t" unfolding m ..
    also have "\<dots> = 10 * (c * t)" by simp
    finally have "m * t + t = 10 * (c * t)" .
    then show ?thesis using that by (rule div10_aux)
  qed
  have pos: "1 \<le> c * t" if "1 \<le> t" for t
    using c0 that by (simp add: Suc_le_eq)
  show ?thesis
  proof (cases "s = 1")
    case True
    have "m div 10 = c - 1" using cum[of 1] by simp
    then show ?thesis using bin_population[OF assms(1) n2 assms(4,5)] True c c0 by (simp add: m_def)
  next
    case False
    then have s1: "1 \<le> s - 1" "s - 1 \<le> 10" using assms(4,5) by linarith+
    have "c * s = c * (s - 1) + c" using assms(4) by (cases s) simp_all
    then have "c * s - 1 - (c * (s - 1) - 1) = c" using pos[OF s1(1)] by linarith
    then have "(m * s) div 10 - (m * (s - 1)) div 10 = c"
      using cum[OF assms(4,5)] cum[OF s1] by simp
    then show ?thesis using bin_population[OF assms(1) n2 assms(4,5)] False c by (simp add: m_def)
  qed
qed

subsection \<open>Ranks and the merged table\<close>

lemma rank_first_nth:
  "i < length xs \<Longrightarrow>
   rank_first xs ! i = 1 + card {j. j < length xs \<and> (xs ! j < xs ! i \<or> (xs ! j = xs ! i \<and> j < i))}"
proof -
  assume i: "i < length xs"
  let ?P = "\<lambda>j. xs ! j < xs ! i \<or> (xs ! j = xs ! i \<and> j < i)"
  have "length (filter ?P [0..<length xs]) = card {j. j < length [0..<length xs] \<and> ?P ([0..<length xs] ! j)}"
    by (rule length_filter_conv_card)
  also have "{j. j < length [0..<length xs] \<and> ?P ([0..<length xs] ! j)} = {j. j < length xs \<and> ?P j}"
    by auto
  finally show ?thesis using i by (simp add: rank_first_def)
qed

lemma length_rank_first: "length (rank_first xs) = length xs"
  by (simp add: rank_first_def)

lemma rank_first_less:
  assumes "i < length xs" "k < length xs"
    and "xs ! i < xs ! k \<or> (xs ! i = xs ! k \<and> i < k)"
  shows "rank_first xs ! i < rank_first xs ! k"
proof -
  let ?S = "\<lambda>i. {j. j < length xs \<and> (xs ! j < xs ! i \<or> (xs ! j = xs ! i \<and> j < i))}"
  have fin: "finite (?S k)" by simp
  have sub: "?S i \<subseteq> ?S k" using assms(3) by auto
  have "i \<in> ?S k" "i \<notin> ?S i" using assms by auto
  then have "?S i \<subset> ?S k" using sub by blast
  then have "card (?S i) < card (?S k)" using fin by (intro psubset_card_mono)
  then show ?thesis using assms(1,2) by (simp add: rank_first_nth)
qed

lemma distinct_rank_first: "distinct (rank_first xs)"
proof -
  have "rank_first xs ! i \<noteq> rank_first xs ! k" if ik: "i < length xs" "k < length xs" "i \<noteq> k" for i k
  proof -
    consider "xs ! i < xs ! k \<or> (xs ! i = xs ! k \<and> i < k)" | "xs ! k < xs ! i \<or> (xs ! k = xs ! i \<and> k < i)"
      using ik(3) by (metis linorder_neqE_nat)
    then show ?thesis
    proof cases
      case 1
      then show ?thesis using rank_first_less[OF ik(1,2)] by simp
    next
      case 2
      then show ?thesis using rank_first_less[OF ik(2,1)] by simp
    qed
  qed
  then show ?thesis by (simp add: distinct_conv_nth length_rank_first)
qed

lemma distinct_rank_column: "distinct (map of_nat (rank_first xs) :: rat list)"
  by (simp add: distinct_map distinct_rank_first)

lemma filter_key_distinct:
  assumes "distinct ks" "k \<in> set ks"
  shows "filter (\<lambda>(k', b). k' = k) (map (\<lambda>k. (k, g k)) ks) = [(k, g k)]"
  using assms by (induction ks) (auto simp: filter_empty_conv)

lemma merge_same_keys:
  assumes "distinct ks"
  shows "merge (map (\<lambda>k. (k, f k)) ks) (map (\<lambda>k. (k, g k)) ks) = map (\<lambda>k. (k, f k, g k)) ks"
proof -
  let ?pair = "\<lambda>(k, a). map (\<lambda>(k', b). (k, a, b)) (filter (\<lambda>(k', b). k' = k) (map (\<lambda>k. (k, g k)) ks))"
  have "map (?pair \<circ> (\<lambda>k. (k, f k))) ks = map (\<lambda>k. [(k, f k, g k)]) ks"
    by (rule map_cong[OF refl]) (simp add: filter_key_distinct[OF assms])
  then have "merge (map (\<lambda>k. (k, f k)) ks) (map (\<lambda>k. (k, g k)) ks) = concat (map (\<lambda>k. [(k, f k, g k)]) ks)"
    by (simp only: merge_def map_map)
  then show ?thesis by (simp only: concat_map_singleton)
qed

lemma distinct_group_keys: "distinct (group_keys df)"
  by (simp add: group_keys_def)

lemma set_group_keys: "set (group_keys df) = {c. \<exists>r \<in> set df. CustomerID r = Some c}"
  by (auto simp: group_keys_def map_filter_def) force

lemma rfm_eq:
  "rfm df =
     map (\<lambda>c. \<lparr>Customer = c,
               Recency = (Max (set (map InvoiceDate df)) + Timedelta_days 1
                          - Max (set (map InvoiceDate (group_rows df c)))) div Timedelta_days 1,
               Frequency = length (remdups (map InvoiceNo (group_rows df c))),
               Monetary = sum_list (map TotalPrice (group_rows df c))\<rparr>)
       (group_keys df)"
proof (cases "df = []")
  case True
  then show ?thesis
    by (simp add: rfm_def recency_df_def latest_date_def merge_def group_keys_def List.map_filter_def)
next
  case False
  then show ?thesis
    by (simp add: rfm_def recency_df_def latest_date_def frequency_df_def monetary_df_def
        merge_same_keys distinct_group_keys)
qed

subsection \<open>The scoring statements\<close>

lemma labels_R_all: "\<forall>k \<in> set [1..<11]. labels_R ! (k - 1) = 11 - int k"
  by code_simp

lemma labels_R_nth: "1 \<le> k \<Longrightarrow> k \<le> 10 \<Longrightarrow> labels_R ! (k - 1) = 11 - int k"
  using labels_R_all by simp

lemma labels_FM_all: "\<forall>k \<in> set [1..<11]. labels_FM ! (k - 1) = int k"
  by code_simp

lemma labels_FM_nth: "1 \<le> k \<Longrightarrow> k \<le> 10 \<Longrightarrow> labels_FM ! (k - 1) = int k"
  using labels_FM_all by simp

lemma constant_column_edges:
  assumes "xs \<noteq> []" "\<forall>x \<in> set xs. x = c"
  shows "bin_edges xs = replicate 11 c"
proof -
  have v: "sort xs ! i = c" if "i < length xs" for i
  proof -
    have "sort xs ! i \<in> set (sort xs)" using that by (intro nth_mem) simp
    then show ?thesis using assms(2) by simp
  qed
  have n: "0 < length xs" using assms(1) by simp
  have "quantile xs q = c" if "0 \<le> q" "q \<le> 1" for q
  proof -
    define j where "j = nat \<lfloor>of_nat (length xs - 1) * q\<rfloor>"
    have j: "j \<le> length xs - 1" unfolding j_def using virtual_index_bounds(3)[OF that] .
    have jn: "j < length xs" using j n by linarith
    have kn: "min (j + 1) (length xs - 1) < length xs" using n by linarith
    have "sort xs ! j \<le> quantile xs q"
      unfolding j_def by (rule quantile_between(1)[OF assms(1) that])
    moreover have "quantile xs q \<le> sort xs ! min (j + 1) (length xs - 1)"
      unfolding j_def by (rule quantile_between(2)[OF assms(1) that])
    ultimately show ?thesis using v[OF jn] v[OF kn] by simp
  qed
  then have "bin_edges xs ! k = replicate 11 c ! k" if "k < 11" for k
    using that by (simp add: bin_edges_nth)
  then show ?thesis by (intro nth_equalityI) (simp_all add: length_bin_edges)
qed

lemma constant_column_not_distinct:
  assumes "xs \<noteq> []" "\<forall>x \<in> set xs. x = c"
  shows "\<not> distinct (bin_edges xs)"
  unfolding constant_column_edges[OF assms] by (simp add: eval_nat_numeral)

lemma single_value_not_distinct: "length xs = 1 \<Longrightarrow> \<not> distinct (bin_edges xs)"
proof -
  assume "length xs = 1"
  then obtain c where c: "xs = [c]" by (cases xs) auto
  have "xs \<noteq> []" "\<forall>x \<in> set xs. x = c" unfolding c by simp_all
  then show ?thesis by (rule constant_column_not_distinct)
qed

lemma distinct_edges_length:
  assumes "xs \<noteq> []" "distinct (bin_edges xs)"
  shows "2 \<le> length xs"
proof (rule ccontr)
  assume "\<not> 2 \<le> length xs"
  moreover have "0 < length xs" using assms(1) by simp
  ultimately have "length xs = 1" by linarith
  then show False using single_value_not_distinct assms(2) by blast
qed

lemma length_columns:
  "length (Recency_column t) = length t" "length (Frequency_rank t) = length t"
  "length (Monetary_column t) = length t"
  by (simp_all add: Recency_column_def Frequency_rank_def Monetary_column_def length_rank_first)

lemma distinct_Frequency_rank: "distinct (Frequency_rank t)"
  unfolding Frequency_rank_def by (rule distinct_rank_column)

lemma Frequency_rank_edges: "2 \<le> length t \<Longrightarrow> distinct (bin_edges (Frequency_rank t))"
  by (intro distinct_bin_edges distinct_Frequency_rank) (simp add: length_columns)

lemma qcut_labels_R:
  "qcut xs labels_R =
     (if xs = [] \<or> \<not> distinct (bin_edges xs) then Inl BinEdgesNotUnique
      else Inr (map (\<lambda>x. 11 - int (bin_id (bin_edges xs) x)) xs))"
  unfolding qcut_eq using bin_id_range[of _ xs] by (auto simp: labels_R_nth[unfolded One_nat_def])

lemma qcut_labels_FM:
  "qcut xs labels_FM =
     (if xs = [] \<or> \<not> distinct (bin_edges xs) then Inl BinEdgesNotUnique
      else Inr (map (\<lambda>x. int (bin_id (bin_edges xs) x)) xs))"
  unfolding qcut_eq using bin_id_range[of _ xs] by (auto simp: labels_FM_nth[unfolded One_nat_def])

lemma rfm_scores_eq:
  "rfm_scores t =
     (if t = [] \<or> \<not> distinct (bin_edges (Recency_column t)) \<or> \<not> distinct (bin_edges (Monetary_column t))
      then Inl BinEdgesNotUnique
      else Inr (map (score_row t) [0..<length t]))"
proof (cases "t = [] \<or> \<not> distinct (bin_edges (Recency_column t))")
  case True
  then show ?thesis by (auto simp: rfm_scores_def qcut_labels_R Recency_column_def)
next
  case False
  then have t: "t \<noteq> []" and dR: "distinct (bin_edges (Recency_column t))" by simp_all
  have R: "Recency_column t \<noteq> []" using t by (simp add: Recency_column_def)
  have "2 \<le> length (Recency_column t)" using distinct_edges_length[OF R dR] .
  then have n2: "2 \<le> length t" by (simp add: length_columns)
  have F: "Frequency_rank t \<noteq> []" using length_columns(2)[of t] t by auto
  have M: "Monetary_column t \<noteq> []" using t by (simp add: Monetary_column_def)
  have qR: "qcut (Recency_column t) labels_R =
      Inr (map (\<lambda>x. 11 - int (bin_id (bin_edges (Recency_column t)) x)) (Recency_column t))"
    using R dR by (simp add: qcut_labels_R)
  have qF: "qcut (Frequency_rank t) labels_FM =
      Inr (map (\<lambda>x. int (bin_id (bin_edges (Frequency_rank t)) x)) (Frequency_rank t))"
    using F Frequency_rank_edges[OF n2] by (simp add: qcut_labels_FM)
  show ?thesis
  proof (cases "distinct (bin_edges (Monetary_column t))")
    case False
    then have qM: "qcut (Monetary_column t) labels_FM = Inl BinEdgesNotUnique"
      by (simp add: qcut_labels_FM)
    have "rfm_scores t = Inl BinEdgesNotUnique"
      unfolding rfm_scores_def qR qF qM by simp
    then show ?thesis using False by simp
  next
    case True
    then have qM: "qcut (Monetary_column t) labels_FM =
        Inr (map (\<lambda>x. int (bin_id (bin_edges (Monetary_column t)) x)) (Monetary_column t))"
      using M by (simp add: qcut_labels_FM)
    have rows: "map (\<lambda>(m, r, f, mo).
                 \<lparr>Customer = Customer m, Recency = Recency m, Frequency = Frequency m,
                  Monetary = Monetary m, R_Score = r, F_Score = f, M_Score = mo,
                  RFM_Score = str r @ str f @ str mo\<rparr>)
           (zip t (zip (map (\<lambda>x. 11 - int (bin_id (bin_edges (Recency_column t)) x)) (Recency_column t))
                  (zip (map (\<lambda>x. int (bin_id (bin_edges (Frequency_rank t)) x)) (Frequency_rank t))
                       (map (\<lambda>x. int (bin_id (bin_edges (Monetary_column t)) x)) (Monetary_column t)))))
          = map (score_row t) [0..<length t]"
      by (intro nth_equalityI) (simp_all add: length_columns score_row_def)
    have "rfm_scores t = Inr (map (score_row t) [0..<length t])"
      unfolding rfm_scores_def qR qF qM using rows by simp
    then show ?thesis using t dR True by simp
  qed
qed

subsection \<open>Cleaning and the metrics\<close>

lemma set_drop_duplicates: "set (drop_duplicates xs) = set xs"
  by (induction xs rule: drop_duplicates.induct) auto

lemma distinct_drop_duplicates: "distinct (drop_duplicates xs)"
  by (induction xs rule: drop_duplicates.induct) (auto simp: set_drop_duplicates)

lemma distinct_data_cleaning: "distinct (data_cleaning df)"
  by (simp add: data_cleaning_def positive_rows_def dropna_def distinct_drop_duplicates)

lemma set_data_cleaning:
  "set (data_cleaning df) =
     {r \<in> set df. CustomerID r \<noteq> None \<and> Description r \<noteq> None \<and> UnitPrice r > 0 \<and> Quantity r > 0}"
  by (auto simp: data_cleaning_def positive_rows_def dropna_def set_drop_duplicates)

lemma distinct_add_TotalPrice: "distinct df \<Longrightarrow> distinct (add_TotalPrice df)"
proof -
  assume d: "distinct df"
  have "inj (\<lambda>r :: 'a row. \<lparr>InvoiceNo = InvoiceNo r, CustomerID = CustomerID r, Description = Description r,
               Quantity = Quantity r, UnitPrice = UnitPrice r, InvoiceDate = InvoiceDate r,
               Country = Country r, TotalPrice = of_int (Quantity r) * UnitPrice r\<rparr>)"
    by (rule injI) simp
  then show ?thesis using d unfolding add_TotalPrice_def by (simp add: distinct_map inj_on_def)
qed

lemma Timedelta_pos: "0 < Timedelta_days 1"
  by (simp add: Timedelta_days_def)

lemma set_group_rows: "set (group_rows df c) = {r \<in> set df. CustomerID r = Some c}"
  by (auto simp: group_rows_def)

lemma group_rows_nonempty: "c \<in> set (group_keys df) \<Longrightarrow> group_rows df c \<noteq> []"
  by (auto simp: set_group_keys group_rows_def filter_empty_conv)

lemma sum_list_one_key:
  fixes v :: rat
  assumes "distinct ks" "k \<in> set ks"
  shows "(\<Sum>k' \<leftarrow> ks. if Some k = Some k' then v else 0) = v"
proof -
  have "(\<Sum>k' \<leftarrow> ks. if Some k = Some k' then v else 0) = (\<Sum>k' \<in> set ks. if k' = k then v else 0)"
    using assms(1) by (simp add: sum_list_distinct_conv_sum_set eq_commute)
  also have "\<dots> = v" using assms(2) by simp
  finally show ?thesis .
qed

lemma group_sums:
  fixes f :: "'a \<Rightarrow> rat"
  assumes "distinct ks" "\<forall>r \<in> set xs. \<exists>k \<in> set ks. key r = Some k"
  shows "(\<Sum>k \<leftarrow> ks. \<Sum>r \<leftarrow> filter (\<lambda>r. key r = Some k) xs. f r) = (\<Sum>r \<leftarrow> xs. f r)"
  using assms(2)
proof (induction xs)
  case Nil
  then show ?case by simp
next
  case (Cons r xs)
  then obtain k where k: "k \<in> set ks" "key r = Some k" by auto
  have "(\<Sum>k' \<leftarrow> ks. \<Sum>r' \<leftarrow> filter (\<lambda>r'. key r' = Some k') (r # xs). f r')
      = (\<Sum>k' \<leftarrow> ks. (if Some k = Some k' then f r else 0) + (\<Sum>r' \<leftarrow> filter (\<lambda>r'. key r' = Some k') xs. f r'))"
    using k(2) by (intro arg_cong[where f = sum_list] map_cong refl) simp
  also have "\<dots> = (\<Sum>k' \<leftarrow> ks. if Some k = Some k' then f r else 0)
                + (\<Sum>k' \<leftarrow> ks. \<Sum>r' \<leftarrow> filter (\<lambda>r'. key r' = Some k') xs. f r')"
    by (rule sum_list_addf)
  also have "\<dots> = f r + (\<Sum>r' \<leftarrow> xs. f r')"
    using sum_list_one_key[OF assms(1) k(1)] Cons by simp
  finally show ?case by simp
qed

lemma map_Monetary_rfm:
  "map Monetary (rfm df) = map (\<lambda>c. sum_list (map TotalPrice (group_rows df c))) (group_keys df)"
  by (simp add: rfm_eq comp_def)

lemma map_Customer_rfm: "map Customer (rfm df) = group_keys df"
  by (simp add: rfm_eq comp_def)

lemma recency_ge_1:
  assumes "c \<in> set (group_keys df)"
  shows "1 \<le> (Max (set (map InvoiceDate df)) + Timedelta_days 1
               - Max (set (map InvoiceDate (group_rows df c)))) div Timedelta_days 1"
proof -
  have ne: "group_rows df c \<noteq> []" using assms by (rule group_rows_nonempty)
  have "set (map InvoiceDate (group_rows df c)) \<subseteq> set (map InvoiceDate df)"
    by (auto simp: group_rows_def)
  then have "Max (set (map InvoiceDate (group_rows df c))) \<le> Max (set (map InvoiceDate df))"
    using ne by (intro Max_mono) simp_all
  then have "Timedelta_days 1 \<le> Max (set (map InvoiceDate df)) + Timedelta_days 1
               - Max (set (map InvoiceDate (group_rows df c)))"
    by simp
  then have "0 < (Max (set (map InvoiceDate df)) + Timedelta_days 1
               - Max (set (map InvoiceDate (group_rows df c)))) div Timedelta_days 1"
    by (simp only: pos_imp_zdiv_pos_iff[OF Timedelta_pos])
  then show ?thesis by linarith
qed

section \<open>The claims\<close>

text \<open>
  C4. Every row of the table that the cleaning steps and the line total leave (lines 33 to
  45 of the script) has a positive quantity and a positive unit price, a customer
  identifier and a product description, and a line total equal to quantity times unit
  price; no two rows of that table are equal.
\<close>

theorem cleaner_output:
  "(\<forall>r \<in> set (cleaner df).
      0 < Quantity r \<and> 0 < UnitPrice r \<and> CustomerID r \<noteq> None \<and> Description r \<noteq> None \<and>
      TotalPrice r = of_int (Quantity r) * UnitPrice r) \<and>
   distinct (cleaner df)"
proof
  show "\<forall>r \<in> set (cleaner df).
      0 < Quantity r \<and> 0 < UnitPrice r \<and> CustomerID r \<noteq> None \<and> Description r \<noteq> None \<and>
      TotalPrice r = of_int (Quantity r) * UnitPrice r"
    by (auto simp: cleaner_def add_TotalPrice_def set_data_cleaning)
  show "distinct (cleaner df)"
    unfolding cleaner_def by (intro distinct_add_TotalPrice distinct_data_cleaning)
qed

theorem cleaner_output_witness:
  "cleaner raw_rows =
     [\<lparr>InvoiceNo = ''536365'', CustomerID = Some 17850, Description = Some ''LANTERN'',
       Quantity = 6, UnitPrice = 339 / 100, InvoiceDate = ''12/1/2010 8:26'',
       Country = ''United Kingdom'', TotalPrice = 1017 / 50\<rparr>,
      \<lparr>InvoiceNo = ''536367'', CustomerID = Some 13047, Description = Some ''MUG'',
       Quantity = 32, UnitPrice = 169 / 100, InvoiceDate = ''12/1/2010 8:34'',
       Country = ''United Kingdom'', TotalPrice = 1352 / 25\<rparr>] \<and>
   TotalPrice (hd (cleaner raw_rows)) = of_int (Quantity (hd (cleaner raw_rows))) * UnitPrice (hd (cleaner raw_rows)) \<and>
   distinct (cleaner raw_rows)"
proof -
  have rows: "cleaner raw_rows =
     [\<lparr>InvoiceNo = ''536365'', CustomerID = Some 17850, Description = Some ''LANTERN'',
       Quantity = 6, UnitPrice = 339 / 100, InvoiceDate = ''12/1/2010 8:26'',
       Country = ''United Kingdom'', TotalPrice = 1017 / 50\<rparr>,
      \<lparr>InvoiceNo = ''536367'', CustomerID = Some 13047, Description = Some ''MUG'',
       Quantity = 32, UnitPrice = 169 / 100, InvoiceDate = ''12/1/2010 8:34'',
       Country = ''United Kingdom'', TotalPrice = 1352 / 25\<rparr>]"
    by (simp add: cleaner_def raw_rows_def raw_row_def data_cleaning_def positive_rows_def
        dropna_def add_TotalPrice_def)
  then have "hd (cleaner raw_rows) \<in> set (cleaner raw_rows)" by simp
  then show ?thesis using cleaner_output[of raw_rows] rows by blast
qed

text \<open>
  C8. For every cleaned table (every row has a customer identifier, and its line total is
  quantity times unit price), the monetary values of all customers add up to the sum of
  the line totals of all rows.
\<close>

theorem monetary_conservation:
  assumes "\<forall>r \<in> set df. CustomerID r \<noteq> None \<and> TotalPrice r = of_int (Quantity r) * UnitPrice r"
  shows "sum_list (map Monetary (rfm df)) = sum_list (map TotalPrice df) \<and>
         sum_list (map Monetary (rfm df)) = (\<Sum>r \<leftarrow> df. of_int (Quantity r) * UnitPrice r)"
proof -
  have keys: "\<forall>r \<in> set df. \<exists>k \<in> set (group_keys df). CustomerID r = Some k"
    using assms by (fastforce simp: set_group_keys)
  have "sum_list (map Monetary (rfm df))
      = (\<Sum>c \<leftarrow> group_keys df. \<Sum>r \<leftarrow> filter (\<lambda>r. CustomerID r = Some c) df. TotalPrice r)"
    by (simp add: map_Monetary_rfm group_rows_def)
  also have "\<dots> = (\<Sum>r \<leftarrow> df. TotalPrice r)"
    using distinct_group_keys keys by (rule group_sums)
  finally have a: "sum_list (map Monetary (rfm df)) = sum_list (map TotalPrice df)" .
  have b: "sum_list (map TotalPrice df) = (\<Sum>r \<leftarrow> df. of_int (Quantity r) * UnitPrice r)"
    using assms by (intro arg_cong[where f = sum_list] map_cong refl) simp
  show ?thesis
  proof
    show "sum_list (map Monetary (rfm df)) = sum_list (map TotalPrice df)" by (rule a)
    show "sum_list (map Monetary (rfm df)) = (\<Sum>r \<leftarrow> df. of_int (Quantity r) * UnitPrice r)"
      by (rule trans[OF a b])
  qed
qed

theorem monetary_conservation_witness:
  "sum_list (map Monetary (rfm two_df)) = 26 \<and> sum_list (map TotalPrice two_df) = 26"
proof -
  have "\<forall>r \<in> set two_df. CustomerID r \<noteq> None \<and> TotalPrice r = of_int (Quantity r) * UnitPrice r"
    by (simp add: two_df_def sale_def)
  moreover have "sum_list (map TotalPrice two_df) = 26"
    by (simp add: two_df_def sale_def)
  ultimately show ?thesis using monetary_conservation[of two_df] by simp
qed

text \<open>
  C9. The engine is deterministic: two runs on the same cleaned table end in the same way,
  with the same error or with the same scored table.
\<close>

theorem engine_deterministic:
  "rfm_engine df = out1 \<Longrightarrow> rfm_engine df = out2 \<Longrightarrow> out1 = out2"
  by simp

theorem engine_deterministic_witness:
  "outcome (rfm_engine two_df) = Inr [(1, 1, 1, 1, ''111''), (2, 10, 10, 10, ''101010'')] \<and>
   rfm_engine two_df = rfm_engine two_df"
proof -
  have "outcome (rfm_engine two_df) = Inr [(1, 1, 1, 1, ''111''), (2, 10, 10, 10, ''101010'')]"
    by code_simp
  then show ?thesis using engine_deterministic[of two_df "rfm_engine two_df" "rfm_engine two_df"] by simp
qed

lemma rfm_row:
  assumes "m \<in> set (rfm df)"
  shows "Customer m \<in> set (group_keys df)"
    and "Recency m = (Max (set (map InvoiceDate df)) + Timedelta_days 1
                       - Max (set (map InvoiceDate (group_rows df (Customer m))))) div Timedelta_days 1"
    and "Frequency m = length (remdups (map InvoiceNo (group_rows df (Customer m))))"
    and "Monetary m = sum_list (map TotalPrice (group_rows df (Customer m)))"
  using assms by (auto simp: rfm_eq)

text \<open>
  C5. For every non-empty cleaned table, \<open>rfm\<close> has one row for every customer of the table,
  and in it the recency, the frequency and the monetary value are those that the
  specification describes, relative to the reference date one day after the latest
  invoice; every recency is at least 0. For the customer with invoices on 2011-01-01 and
  2011-01-10 the reference date is 2011-01-11, the frequency 2 and the recency 1.
\<close>

theorem metrics_as_specified:
  assumes "df \<noteq> []"
  shows "set (map Customer (rfm df)) = {c. \<exists>r \<in> set df. CustomerID r = Some c} \<and>
         distinct (map Customer (rfm df)) \<and>
         (\<forall>m \<in> set (rfm df).
            Recency m = spec_recency df (Customer m) \<and>
            Frequency m = spec_frequency df (Customer m) \<and>
            Monetary m = spec_monetary df (Customer m) \<and>
            0 \<le> Recency m) \<and>
         reference_date c1_df = Timedelta_days 14985 \<and>
         rfm c1_df = [\<lparr>Customer = 1, Recency = 1, Frequency = 2, Monetary = 11\<rparr>]"
proof (intro conjI ballI)
  show "set (map Customer (rfm df)) = {c. \<exists>r \<in> set df. CustomerID r = Some c}"
    by (simp only: map_Customer_rfm set_group_keys)
  show "distinct (map Customer (rfm df))"
    by (simp only: map_Customer_rfm distinct_group_keys)
  show "reference_date c1_df = Timedelta_days 14985"
    by (simp add: reference_date_def c1_df_def sale_def Timedelta_days_def)
  show "rfm c1_df = [\<lparr>Customer = 1, Recency = 1, Frequency = 2, Monetary = 11\<rparr>]"
    by code_simp
next
  fix m assume m: "m \<in> set (rfm df)"
  have recs: "set (group_rows df (Customer m)) = records_of df (Customer m)"
    by (simp add: set_group_rows records_of_def)
  show "Recency m = spec_recency df (Customer m)"
    unfolding rfm_row(2)[OF m] spec_recency_def whole_days_def reference_date_def
    by (simp add: recs)
  show "Frequency m = spec_frequency df (Customer m)"
    unfolding rfm_row(3)[OF m] spec_frequency_def
    by (simp add: length_remdups_card_conv recs)
  show "Monetary m = spec_monetary df (Customer m)"
    unfolding rfm_row(4)[OF m] spec_monetary_def group_rows_def
    by (rule sum_list_map_filter')
  show "0 \<le> Recency m"
    unfolding rfm_row(2)[OF m] using recency_ge_1[OF rfm_row(1)[OF m]] by linarith
qed

theorem metrics_as_specified_witness:
  "c1_df \<noteq> [] \<and> set (map Customer (rfm c1_df)) = {1} \<and>
   spec_recency c1_df 1 = 1 \<and> spec_frequency c1_df 1 = 2 \<and> spec_monetary c1_df 1 = 11"
proof -
  have ne: "c1_df \<noteq> []" by (simp add: c1_df_def)
  note spec = metrics_as_specified[OF ne]
  have t: "rfm c1_df = [\<lparr>Customer = 1, Recency = 1, Frequency = 2, Monetary = 11\<rparr>]"
    using spec by blast
  have "\<forall>m \<in> set (rfm c1_df).
            Recency m = spec_recency c1_df (Customer m) \<and>
            Frequency m = spec_frequency c1_df (Customer m) \<and>
            Monetary m = spec_monetary c1_df (Customer m) \<and>
            0 \<le> Recency m"
    using spec by blast
  then show ?thesis using ne unfolding t by simp
qed

end
